theory Spec2Isabelle
  imports Complex_Main
begin

section \<open>Data model of \<open>src/components/TicTacToe.tsx\<close>\<close>

text \<open>
  \<open>type Player = 'X' | 'O' | null\<close>: the two marks are a datatype, and a value of type
  \<open>Player\<close> is an optional mark, \<open>None\<close> standing for \<open>null\<close>.
\<close>

datatype mark = MarkX | MarkO

type_synonym Player = "mark option"

text \<open>\<open>type GameMode = 'player' | 'computer'\<close> and \<open>type GameStatus = 'playing' | 'won' | 'draw'\<close>.\<close>

datatype GameMode = ModePlayer | ModeComputer

datatype GameStatus = Playing | Won | Draw

text \<open>
  \<open>score: { x: number; o: number; draws: number }\<close>. The counters start at 0 and only ever
  grow by one, so they are natural numbers.
\<close>

record Score =
  score_x :: nat
  score_o :: nat
  score_draws :: nat

record GameState =
  board :: "Player list"
  currentPlayer :: Player
  gameStatus :: GameStatus
  winner :: Player
  gameMode :: GameMode
  score :: Score

text \<open>The initial value given to \<open>useState\<close>.\<close>

definition initialState :: GameState where
  "initialState =
     \<lparr> board = replicate 9 None,
       currentPlayer = Some MarkX,
       gameStatus = Playing,
       winner = None,
       gameMode = ModePlayer,
       score = \<lparr> score_x = 0, score_o = 0, score_draws = 0 \<rparr> \<rparr>"

section \<open>Array reads\<close>

text \<open>
  A JavaScript array read \<open>xs[i]\<close> yields \<open>undefined\<close> when \<open>i\<close> is not an index of the
  array. \<open>arrayGet xs i\<close> is \<open>None\<close> for \<open>undefined\<close> and \<open>Some v\<close> for the element. On a board,
  \<open>Some None\<close> is therefore the value \<open>null\<close> and \<open>Some (Some m)\<close> the mark \<open>m\<close>.
\<close>

definition arrayGet :: "'a list \<Rightarrow> int \<Rightarrow> 'a option" where
  "arrayGet xs i = (if 0 \<le> i \<and> i < int (length xs) then Some (xs ! nat i) else None)"

section \<open>Rules\<close>

definition winningCombinations :: "(int \<times> int \<times> int) list" where
  "winningCombinations =
     [(0, 1, 2), (3, 4, 5), (6, 7, 8),
      (0, 3, 6), (1, 4, 7), (2, 5, 8),
      (0, 4, 8), (2, 4, 6)]"

text \<open>
  The \<open>for\<close> loop of \<open>checkWinner\<close> over the remaining combinations. The test
  \<open>board[a] && board[a] === board[b] && board[a] === board[c]\<close> is truthy only when
  \<open>board[a]\<close> is a mark; the loop then returns \<open>board[a]\<close>.
\<close>

fun checkWinner_loop :: "Player list \<Rightarrow> (int \<times> int \<times> int) list \<Rightarrow> Player" where
  "checkWinner_loop b [] = None"
| "checkWinner_loop b ((a, b', c) # rest) =
     (case arrayGet b a of
        Some (Some m) \<Rightarrow>
          if arrayGet b a = arrayGet b b' \<and> arrayGet b a = arrayGet b c then Some m
          else checkWinner_loop b rest
      | _ \<Rightarrow> checkWinner_loop b rest)"

definition checkWinner :: "Player list \<Rightarrow> Player" where
  "checkWinner b = checkWinner_loop b winningCombinations"

text \<open>\<open>board.every(cell => cell !== null)\<close>.\<close>

definition isBoardFull :: "Player list \<Rightarrow> bool" where
  "isBoardFull b = list_all (\<lambda>cell. cell \<noteq> None) b"

text \<open>
  \<open>board.map((cell, index) => cell === null ? index : null).filter(index => index !== null)\<close>;
  the cast \<open>as number[]\<close> reads the remaining entries as numbers.
\<close>

definition getAvailableMoves :: "Player list \<Rightarrow> int list" where
  "getAvailableMoves b =
     map the
       (filter (\<lambda>index. index \<noteq> None)
          (map (\<lambda>(cell, index). if cell = None then Some index else None)
             (zip b (map int [0..<length b]))))"

section \<open>Computer move\<close>

text \<open>
  The first two loops of \<open>getComputerMove\<close> have the same body, once for the mark \<open>'O'\<close>
  and once for \<open>'X'\<close>. \<open>pairLoop m b cs\<close> is that loop for the mark \<open>m\<close>: \<open>Some i\<close> when it
  returns the index \<open>i\<close>, \<open>None\<close> when it runs to its end.
\<close>

fun pairLoop :: "mark \<Rightarrow> Player list \<Rightarrow> (int \<times> int \<times> int) list \<Rightarrow> int option" where
  "pairLoop m b [] = None"
| "pairLoop m b ((a, b', c) # rest) =
     (if arrayGet b a = Some (Some m) \<and> arrayGet b b' = Some (Some m)
           \<and> arrayGet b c = Some None then Some c
      else if arrayGet b a = Some (Some m) \<and> arrayGet b c = Some (Some m)
           \<and> arrayGet b b' = Some None then Some b'
      else if arrayGet b b' = Some (Some m) \<and> arrayGet b c = Some (Some m)
           \<and> arrayGet b a = Some None then Some a
      else pairLoop m b rest)"

text \<open>
  \<open>Math.random()\<close> yields a number \<open>rnd\<close> with \<open>0 \<le> rnd < 1\<close>; it is a parameter of the model,
  and at most one of the two calls is executed. \<open>Math.floor(rnd * n)\<close> is the floor of the
  product. The result is \<open>None\<close> when the function returns \<open>undefined\<close>, which the final
  array reads do when the index is not in the array.
\<close>

definition getComputerMove :: "real \<Rightarrow> Player list \<Rightarrow> int option" where
  "getComputerMove rnd b =
     (case pairLoop MarkO b winningCombinations of
        Some i \<Rightarrow> Some i
      | None \<Rightarrow>
         (case pairLoop MarkX b winningCombinations of
            Some i \<Rightarrow> Some i
          | None \<Rightarrow>
             if arrayGet b 4 = Some None then Some 4
             else
               let corners = [0, 2, 6, 8];
                   availableCorners = filter (\<lambda>corner. arrayGet b corner = Some None) corners
               in if length availableCorners > 0
                  then arrayGet availableCorners \<lfloor>rnd * real (length availableCorners)\<rfloor>
                  else
                    let availableMoves = getAvailableMoves b
                    in arrayGet availableMoves \<lfloor>rnd * real (length availableMoves)\<rfloor>))"

section \<open>Session events\<close>

text \<open>
  \<open>handleCellClick\<close> reads \<open>gameState\<close>, the state of the render that created the
  handler, and either returns at once or calls \<open>setGameState\<close> with a function of the state
  \<open>prev\<close> that is current when the update is applied; the model is the resulting map on
  \<open>prev\<close>, the identity when the handler returns at once. The guard lets the function go
  on only when \<open>board[index]\<close> is \<open>null\<close>, so the index is one of the array and the
  write \<open>newBoard[index] = ...\<close> replaces an element. The calls to \<open>toast\<close> hand a
  message to the notification hook and leave the state alone. The update spreads \<open>prev\<close>
  and overwrites every field but \<open>gameMode\<close>.
\<close>

definition handleCellClick :: "GameState \<Rightarrow> int \<Rightarrow> GameState \<Rightarrow> GameState" where
  "handleCellClick gameState index prev =
     (if arrayGet (board gameState) index \<noteq> Some None \<or> gameStatus gameState \<noteq> Playing
      then prev
      else
        let newBoard = (board gameState)[nat index := currentPlayer gameState];
            w = checkWinner newBoard;
            old = score gameState;
            (newGameStatus, newScore) =
              (case w of
                 Some m \<Rightarrow>
                   (Won, if m = MarkX then old\<lparr>score_x := score_x old + 1\<rparr>
                         else old\<lparr>score_o := score_o old + 1\<rparr>)
               | None \<Rightarrow>
                   if isBoardFull newBoard
                   then (Draw, old\<lparr>score_draws := score_draws old + 1\<rparr>)
                   else (Playing, old))
        in prev
             \<lparr> board := newBoard,
               currentPlayer :=
                 (if currentPlayer gameState = Some MarkX then Some MarkO else Some MarkX),
               gameStatus := newGameStatus,
               winner := w,
               score := newScore \<rparr>)"

text \<open>
  A move event of the session, handled by the handler of the render of the current
  state: \<open>gameState\<close> and \<open>prev\<close> are both that state.
\<close>

definition moveEvent :: "GameState \<Rightarrow> int \<Rightarrow> GameState" where
  "moveEvent s index = handleCellClick s index s"

definition resetGame :: "GameState \<Rightarrow> GameState" where
  "resetGame prev =
     prev\<lparr> board := replicate 9 None, currentPlayer := Some MarkX,
           gameStatus := Playing, winner := None \<rparr>"

definition resetScore :: "GameState \<Rightarrow> GameState" where
  "resetScore prev = prev\<lparr> score := \<lparr> score_x = 0, score_o = 0, score_draws = 0 \<rparr> \<rparr>"

definition setGameMode :: "GameState \<Rightarrow> GameMode \<Rightarrow> GameState" where
  "setGameMode prev mode =
     prev\<lparr> gameMode := mode, board := replicate 9 None, currentPlayer := Some MarkX,
           gameStatus := Playing, winner := None \<rparr>"

text \<open>
  The computer move effect. \<open>useEffect\<close> runs its function after a render in which one of
  the dependencies \<open>[gameState.currentPlayer, gameState.gameMode, gameState.gameStatus]\<close>
  differs from the render before, after the cleanup \<open>clearTimeout(timer)\<close> of its last
  run; in a render that leaves the three as they were, neither runs and a timer that is
  set stays set. When the condition holds, the effect sets a timer of 500 ms whose
  callback belongs to that render.
\<close>

definition computerEffectDeps :: "GameState \<Rightarrow> Player \<times> GameMode \<times> GameStatus" where
  "computerEffectDeps gameState =
     (currentPlayer gameState, gameMode gameState, gameStatus gameState)"

definition computerEffectCondition :: "GameState \<Rightarrow> bool" where
  "computerEffectCondition gameState =
     (gameMode gameState = ModeComputer \<and> currentPlayer gameState = Some MarkO
      \<and> gameStatus gameState = Playing)"

text \<open>
  The callback of the timer: \<open>getComputerMove(gameState.board)\<close> and then
  \<open>handleCellClick(computerMove)\<close>, both of the render \<open>gameState\<close> that set the timer,
  applied when the state \<open>prev\<close> is current. With \<open>undefined\<close> for an index,
  \<open>board[index]\<close> is \<open>undefined\<close> and the handler returns at once.
\<close>

definition computerTimer :: "real \<Rightarrow> GameState \<Rightarrow> GameState \<Rightarrow> GameState" where
  "computerTimer rnd gameState prev =
     (case getComputerMove rnd (board gameState) of
        Some computerMove \<Rightarrow> handleCellClick gameState computerMove prev
      | None \<Rightarrow> prev)"

text \<open>A sequence of move events, applied one after the other.\<close>

fun clicks :: "GameState \<Rightarrow> int list \<Rightarrow> GameState" where
  "clicks s [] = s"
| "clicks s (i # is) = clicks (moveEvent s i) is"

text \<open>
  The state of a session in which X has won a game in the mode \<open>player\<close> with the cells
  0, 1, 2, the mode has then been set to \<open>computer\<close>, and X has played the centre.
\<close>

definition afterCentre :: GameState where
  "afterCentre = moveEvent (setGameMode (clicks initialState [0, 3, 1, 4, 2]) ModeComputer) 4"

section \<open>Notions used to state the properties\<close>

text \<open>
  A mark owns a triple of cells on a board when it is read at each of the three indices;
  a triple is matched when one of the two marks owns it.
\<close>

definition owns :: "Player list \<Rightarrow> mark \<Rightarrow> int \<times> int \<times> int \<Rightarrow> bool" where
  "owns b m t =
     (case t of (a, b', c) \<Rightarrow>
        arrayGet b a = Some (Some m) \<and> arrayGet b b' = Some (Some m) \<and> arrayGet b c = Some (Some m))"

definition matched :: "Player list \<Rightarrow> int \<times> int \<times> int \<Rightarrow> bool" where
  "matched b t = (owns b MarkX t \<or> owns b MarkO t)"

text \<open>A board has a line when one of the eight triples is matched.\<close>

definition hasLine :: "Player list \<Rightarrow> bool" where
  "hasLine b = list_ex (matched b) winningCombinations"

text \<open>
  A move event is accepted when the status is \<open>playing\<close> and the cell at its index is
  \<open>null\<close>.
\<close>

definition accepted :: "GameState \<Rightarrow> int \<Rightarrow> bool" where
  "accepted s i = (gameStatus s = Playing \<and> arrayGet (board s) i = Some None)"

text \<open>
  The marks that a sequence of move events puts on the board, in order: for each accepted
  event, the mark read from the new board at the index of the event.
\<close>

fun placedMarks :: "GameState \<Rightarrow> int list \<Rightarrow> Player list" where
  "placedMarks s [] = []"
| "placedMarks s (i # is) =
     (if accepted s i
      then (board (moveEvent s i) ! nat i) # placedMarks (moveEvent s i) is
      else placedMarks (moveEvent s i) is)"

text \<open>The sequence \<open>m, m', m, m', ...\<close> of the given length, \<open>m'\<close> being the other mark.\<close>

fun alternate :: "mark \<Rightarrow> nat \<Rightarrow> Player list" where
  "alternate m 0 = []"
| "alternate m (Suc n) = Some m # alternate (if m = MarkX then MarkO else MarkX) n"

text \<open>
  \<open>completes m b t i\<close>: two cells of the triple \<open>t\<close> hold the mark \<open>m\<close> and \<open>i\<close> is the
  index of its third cell, which is \<open>null\<close>. A triple with such an index is an open pair of
  \<open>m\<close>; an index is completing for \<open>m\<close> when it completes one of the eight triples.
\<close>

definition completes :: "mark \<Rightarrow> Player list \<Rightarrow> int \<times> int \<times> int \<Rightarrow> int \<Rightarrow> bool" where
  "completes m b t i =
     (case t of (a, b', c) \<Rightarrow>
        (i = c \<and> arrayGet b a = Some (Some m) \<and> arrayGet b b' = Some (Some m)
           \<and> arrayGet b c = Some None)
        \<or> (i = b' \<and> arrayGet b a = Some (Some m) \<and> arrayGet b c = Some (Some m)
           \<and> arrayGet b b' = Some None)
        \<or> (i = a \<and> arrayGet b b' = Some (Some m) \<and> arrayGet b c = Some (Some m)
           \<and> arrayGet b a = Some None))"

definition openPair :: "mark \<Rightarrow> Player list \<Rightarrow> int \<times> int \<times> int \<Rightarrow> bool" where
  "openPair m b t =
     (case t of (a, b', c) \<Rightarrow> completes m b t c \<or> completes m b t b' \<or> completes m b t a)"

definition completing :: "mark \<Rightarrow> Player list \<Rightarrow> int \<Rightarrow> bool" where
  "completing m b i = list_ex (\<lambda>t. completes m b t i) winningCombinations"

section \<open>Properties\<close>

subsection \<open>Array reads and the empty cells\<close>

lemma arrayGet_Some_iff: "arrayGet xs i = Some v \<longleftrightarrow> 0 \<le> i \<and> i < int (length xs) \<and> xs ! nat i = v"
  by (auto simp: arrayGet_def)

lemma arrayGet_None_iff: "arrayGet xs i = None \<longleftrightarrow> i < 0 \<or> int (length xs) \<le> i"
  by (auto simp: arrayGet_def)

lemma zip_indices: "zip b (map int [0..<length b]) = map (\<lambda>i. (b ! i, int i)) [0..<length b]"
  by (rule nth_equalityI) simp_all

lemma getAvailableMoves_filter:
  "getAvailableMoves b = map int (filter (\<lambda>i. b ! i = None) [0..<length b])"
proof -
  have "map the (filter (\<lambda>index. index \<noteq> None)
          (map (\<lambda>i. if b ! i = None then Some (int i) else None) xs))
        = map int (filter (\<lambda>i. b ! i = None) xs)" for xs :: "nat list"
    by (induction xs) simp_all
  then show ?thesis
    by (simp add: getAvailableMoves_def zip_indices o_def)
qed

lemma set_getAvailableMoves: "set (getAvailableMoves b) = {i. arrayGet b i = Some None}"
proof -
  have "int ` {i. i < length b \<and> b ! i = None} = {i. arrayGet b i = Some None}"
  proof (rule set_eqI)
    fix j :: int
    show "j \<in> int ` {i. i < length b \<and> b ! i = None} \<longleftrightarrow> j \<in> {i. arrayGet b i = Some None}"
    proof
      assume "j \<in> int ` {i. i < length b \<and> b ! i = None}"
      then show "j \<in> {i. arrayGet b i = Some None}" by (auto simp: arrayGet_Some_iff)
    next
      assume "j \<in> {i. arrayGet b i = Some None}"
      then have "0 \<le> j" "nat j < length b" "b ! nat j = None" by (auto simp: arrayGet_Some_iff)
      then have "nat j \<in> {i. i < length b \<and> b ! i = None}" "j = int (nat j)" by simp_all
      then show "j \<in> int ` {i. i < length b \<and> b ! i = None}" by (rule_tac image_eqI[where x="nat j"]) 
    qed
  qed
  then show ?thesis by (simp add: getAvailableMoves_filter)
qed

lemma isBoardFull_set: "isBoardFull b \<longleftrightarrow> None \<notin> set b"
  unfolding isBoardFull_def list_all_iff by metis

lemma None_in_board_iff: "None \<in> set b \<longleftrightarrow> (\<exists>i. arrayGet b i = Some None)"
proof
  assume "None \<in> set b"
  then obtain k where "k < length b" "b ! k = None" by (auto simp: in_set_conv_nth)
  then have "arrayGet b (int k) = Some None" by (simp add: arrayGet_def)
  then show "\<exists>i. arrayGet b i = Some None" ..
next
  assume "\<exists>i. arrayGet b i = Some None"
  then obtain i where "0 \<le> i" "nat i < length b" "b ! nat i = None" by (auto simp: arrayGet_Some_iff)
  then show "None \<in> set b" by (metis nth_mem)
qed

subsection \<open>Full boards\<close>

text \<open>
  Claim C8: for every board, \<open>isBoardFull\<close> is true if and only if \<open>getAvailableMoves\<close>
  returns the empty sequence, and if and only if no cell of the board is \<open>null\<close>.
\<close>

theorem isBoardFull_iff_no_available:
  "(isBoardFull b \<longleftrightarrow> getAvailableMoves b = []) \<and> (isBoardFull b \<longleftrightarrow> None \<notin> set b)"
proof -
  have "getAvailableMoves b = [] \<longleftrightarrow> set (getAvailableMoves b) = {}" by simp
  also have "\<dots> \<longleftrightarrow> \<not> (\<exists>i. arrayGet b i = Some None)" by (auto simp: set_getAvailableMoves)
  also have "\<dots> \<longleftrightarrow> None \<notin> set b" by (simp add: None_in_board_iff)
  finally show ?thesis by (simp add: isBoardFull_set)
qed

text \<open>A full board and a board with two \<open>null\<close> cells.\<close>

theorem isBoardFull_iff_no_available_witness:
  "isBoardFull [Some MarkX, Some MarkO, Some MarkX, Some MarkO, Some MarkO, Some MarkX,
                Some MarkX, Some MarkX, Some MarkO]
   \<and> \<not> isBoardFull [Some MarkX, None, Some MarkX, Some MarkO, Some MarkO, Some MarkX,
                  Some MarkX, None, Some MarkO]"
proof -
  have full: "getAvailableMoves [Some MarkX, Some MarkO, Some MarkX, Some MarkO, Some MarkO,
                Some MarkX, Some MarkX, Some MarkX, Some MarkO] = []"
    by code_simp
  have part: "getAvailableMoves [Some MarkX, None, Some MarkX, Some MarkO, Some MarkO,
                Some MarkX, Some MarkX, None, Some MarkO] = [1, 7]"
    by code_simp
  show ?thesis
    using isBoardFull_iff_no_available
            [of "[Some MarkX, Some MarkO, Some MarkX, Some MarkO, Some MarkO,
                  Some MarkX, Some MarkX, Some MarkX, Some MarkO]"]
          isBoardFull_iff_no_available
            [of "[Some MarkX, None, Some MarkX, Some MarkO, Some MarkO,
                  Some MarkX, Some MarkX, None, Some MarkO]"]
    unfolding full part by simp
qed

subsection \<open>Resetting the score\<close>

text \<open>
  Claim C10: \<open>resetScore\<close> sets the three score counters to zero and leaves the board,
  the status, the winner, the current player and the game mode as they were.
\<close>

theorem resetScore_zeroes_counters:
  "score_x (score (resetScore s)) = 0 \<and> score_o (score (resetScore s)) = 0
   \<and> score_draws (score (resetScore s)) = 0
   \<and> board (resetScore s) = board s \<and> gameStatus (resetScore s) = gameStatus s
   \<and> winner (resetScore s) = winner s \<and> currentPlayer (resetScore s) = currentPlayer s
   \<and> gameMode (resetScore s) = gameMode s"
  by (simp add: resetScore_def)

subsection \<open>Ignored move events\<close>

text \<open>
  Claim C3: a move event whose index is not an index of the board (for the nine cells of
  a session: not in 0..8), whose cell already holds a mark, or that arrives when the
  status is not \<open>playing\<close>, returns the state unchanged in every field; the handler
  then makes no update at all, whatever state is current.
\<close>

theorem moveEvent_ignored:
  assumes "index < 0 \<or> int (length (board s)) \<le> index
           \<or> arrayGet (board s) index = Some (Some m) \<or> gameStatus s \<noteq> Playing"
  shows "moveEvent s index = s \<and> handleCellClick s index prev = prev"
  using assms by (auto simp: moveEvent_def handleCellClick_def arrayGet_def)

text \<open>
  An occupied cell, a finished game, and the indices 9 and -1 on the nine cells of the
  initial state.
\<close>

theorem moveEvent_ignored_witness:
  "moveEvent (clicks initialState [4]) 4 = clicks initialState [4]
   \<and> moveEvent (clicks initialState [0, 3, 1, 4, 2]) 8 = clicks initialState [0, 3, 1, 4, 2]
   \<and> moveEvent initialState 9 = initialState
   \<and> moveEvent initialState (- 1) = initialState"
proof -
  have occupied: "arrayGet (board (clicks initialState [4])) 4 = Some (Some MarkX)"
    by code_simp
  have finished: "gameStatus (clicks initialState [0, 3, 1, 4, 2]) \<noteq> Playing"
    by code_simp
  have above: "int (length (board initialState)) \<le> 9"
    by code_simp
  have below: "(- 1 :: int) < 0"
    by simp
  show ?thesis
    using moveEvent_ignored [of 4 "clicks initialState [4]" MarkX]
          moveEvent_ignored [of 8 "clicks initialState [0, 3, 1, 4, 2]" MarkX]
          moveEvent_ignored [of 9 initialState MarkX]
          moveEvent_ignored [of "- 1" initialState MarkX]
          occupied finished above below
    by blast
qed

subsection \<open>The winner\<close>

lemma owns_unique: "owns b m t \<Longrightarrow> owns b m' t \<Longrightarrow> m = m'"
  by (auto simp: owns_def split: prod.splits)

lemma matched_iff: "matched b t \<longleftrightarrow> (\<exists>m. owns b m t)"
  unfolding matched_def by (metis mark.exhaust)

lemma checkWinner_loop_owned:
  "owns b m t \<Longrightarrow> checkWinner_loop b (t # rest) = Some m"
  by (cases t) (simp add: owns_def)

lemma checkWinner_loop_skip:
  "\<not> matched b t \<Longrightarrow> checkWinner_loop b (t # rest) = checkWinner_loop b rest"
proof (cases t)
  case (fields a b' c)
  assume nm: "\<not> matched b t"
  show ?thesis
  proof (cases "arrayGet b a")
    case None
    then show ?thesis using fields by simp
  next
    case (Some cell)
    show ?thesis
    proof (cases cell)
      case None
      then show ?thesis using Some fields by simp
    next
      case (Some m)
      with nm fields \<open>arrayGet b a = Some cell\<close> show ?thesis
        by (auto simp: matched_iff owns_def)
    qed
  qed
qed

lemma checkWinner_loop_None:
  "checkWinner_loop b cs = None \<longleftrightarrow> (\<forall>t\<in>set cs. \<not> matched b t)"
proof (induction cs)
  case Nil
  show ?case by simp
next
  case (Cons t rest)
  show ?case
  proof (cases "matched b t")
    case True
    then obtain m where "owns b m t" by (auto simp: matched_iff)
    then have "checkWinner_loop b (t # rest) = Some m" by (rule checkWinner_loop_owned)
    with True show ?thesis by auto
  next
    case False
    with Cons show ?thesis by (simp add: checkWinner_loop_skip)
  qed
qed

lemma checkWinner_loop_Some:
  "checkWinner_loop b cs = Some m \<longleftrightarrow>
     (\<exists>pre t post. cs = pre @ t # post \<and> owns b m t \<and> (\<forall>u\<in>set pre. \<not> matched b u))"
proof (induction cs)
  case Nil
  show ?case by simp
next
  case (Cons t rest)
  show ?case
  proof (cases "matched b t")
    case True
    then obtain m0 where m0: "owns b m0 t" by (auto simp: matched_iff)
    then have val: "checkWinner_loop b (t # rest) = Some m0" by (rule checkWinner_loop_owned)
    show ?thesis
    proof
      assume "checkWinner_loop b (t # rest) = Some m"
      with val have "m0 = m" by simp
      with m0 have "t # rest = [] @ t # rest \<and> owns b m t \<and> (\<forall>u\<in>set []. \<not> matched b u)"
        by simp
      then show "\<exists>pre t' post. t # rest = pre @ t' # post \<and> owns b m t' \<and> (\<forall>u\<in>set pre. \<not> matched b u)"
        by blast
    next
      assume "\<exists>pre t' post. t # rest = pre @ t' # post \<and> owns b m t' \<and> (\<forall>u\<in>set pre. \<not> matched b u)"
      then obtain pre t' post where d: "t # rest = pre @ t' # post" "owns b m t'"
        "\<forall>u\<in>set pre. \<not> matched b u" by blast
      have "pre = []"
      proof (cases pre)
        case Nil then show ?thesis .
      next
        case (Cons p ps)
        with d(1) have "p = t" by simp
        with Cons d(3) True show ?thesis by simp
      qed
      with d have "owns b m t" by simp
      with m0 have "m0 = m" by (rule owns_unique)
      with val show "checkWinner_loop b (t # rest) = Some m" by simp
    qed
  next
    case False
    then have skip: "checkWinner_loop b (t # rest) = checkWinner_loop b rest"
      by (rule checkWinner_loop_skip)
    show ?thesis
    proof
      assume "checkWinner_loop b (t # rest) = Some m"
      with skip Cons obtain pre t' post where
        d: "rest = pre @ t' # post" "owns b m t'" "\<forall>u\<in>set pre. \<not> matched b u"
        by auto
      with False have "t # rest = (t # pre) @ t' # post \<and> owns b m t' \<and> (\<forall>u\<in>set (t # pre). \<not> matched b u)"
        by simp
      then show "\<exists>pre t' post. t # rest = pre @ t' # post \<and> owns b m t' \<and> (\<forall>u\<in>set pre. \<not> matched b u)"
        by blast
    next
      assume "\<exists>pre t' post. t # rest = pre @ t' # post \<and> owns b m t' \<and> (\<forall>u\<in>set pre. \<not> matched b u)"
      then obtain pre t' post where d: "t # rest = pre @ t' # post" "owns b m t'"
        "\<forall>u\<in>set pre. \<not> matched b u" by blast
      from d(2) have "matched b t'" by (auto simp: matched_iff)
      with False d(1) obtain ps where ps: "pre = t # ps"
        by (cases pre) auto
      with d have "rest = ps @ t' # post \<and> owns b m t' \<and> (\<forall>u\<in>set ps. \<not> matched b u)" by simp
      then have "checkWinner_loop b rest = Some m" using Cons by blast
      with skip show "checkWinner_loop b (t # rest) = Some m" by simp
    qed
  qed
qed

lemma winningCombinations_lines:
  "set winningCombinations =
     (\<lambda>r. (3 * r, 3 * r + 1, 3 * r + 2)) ` {0, 1, 2}
     \<union> (\<lambda>c. (c, c + 3, c + 6)) ` {0, 1, 2}
     \<union> {(0, 4, 8), (2, 4, 6)}"
  by (auto simp: winningCombinations_def)

lemma checkWinner_None_iff:
  "checkWinner b = None \<longleftrightarrow> (\<forall>t\<in>set winningCombinations. \<not> matched b t)"
  unfolding checkWinner_def by (rule checkWinner_loop_None)

lemma checkWinner_Some_owns:
  assumes "checkWinner b = Some m"
  shows "\<exists>t\<in>set winningCombinations. owns b m t"
proof -
  from assms obtain pre t post where "winningCombinations = pre @ t # post" "owns b m t"
    unfolding checkWinner_def checkWinner_loop_Some by blast
  then have "t \<in> set winningCombinations" "owns b m t"
    by (simp_all add: in_set_conv_decomp) blast
  then show ?thesis ..
qed

text \<open>
  Claim C2: \<open>checkWinner\<close> returns a mark exactly when that mark owns the first matched
  triple in the order of \<open>winningCombinations\<close> (no earlier triple is matched); it returns
  \<open>null\<close> exactly when no triple is matched, in particular on the empty board. The
  combinations are the eight lines of the grid: three rows, three columns, two diagonals.
\<close>

theorem checkWinner_first_matched:
  "(checkWinner b = Some m \<longleftrightarrow>
      (\<exists>pre t post. winningCombinations = pre @ t # post \<and> owns b m t
                     \<and> (\<forall>u\<in>set pre. \<not> matched b u)))
   \<and> (checkWinner b = None \<longleftrightarrow> (\<forall>t\<in>set winningCombinations. \<not> matched b t))
   \<and> checkWinner (replicate 9 None) = None
   \<and> length winningCombinations = 8
   \<and> set winningCombinations =
       (\<lambda>r. (3 * r, 3 * r + 1, 3 * r + 2)) ` {0, 1, 2}
       \<union> (\<lambda>c. (c, c + 3, c + 6)) ` {0, 1, 2}
       \<union> {(0, 4, 8), (2, 4, 6)}"
proof -
  have "checkWinner (replicate 9 None) = None"
    by code_simp
  moreover have "length winningCombinations = 8"
    by (simp add: winningCombinations_def)
  ultimately show ?thesis
    unfolding checkWinner_def
    using checkWinner_loop_Some [of b winningCombinations m]
          checkWinner_loop_None [of b winningCombinations]
          winningCombinations_lines
    by simp
qed

text \<open>
  A board with three matched triples, two of O and one of X: the first in the order of
  \<open>winningCombinations\<close> is the row (3, 4, 5) of X.
\<close>

theorem checkWinner_first_matched_witness:
  "checkWinner [Some MarkO, Some MarkO, None, Some MarkX, Some MarkX, Some MarkX,
                Some MarkO, Some MarkO, Some MarkO] = Some MarkX
   \<and> (\<exists>pre t post. winningCombinations = pre @ t # post
        \<and> owns [Some MarkO, Some MarkO, None, Some MarkX, Some MarkX, Some MarkX,
                 Some MarkO, Some MarkO, Some MarkO] MarkX t
        \<and> (\<forall>u\<in>set pre. \<not> matched [Some MarkO, Some MarkO, None, Some MarkX, Some MarkX,
                 Some MarkX, Some MarkO, Some MarkO, Some MarkO] u))"
proof -
  have "checkWinner [Some MarkO, Some MarkO, None, Some MarkX, Some MarkX, Some MarkX,
                Some MarkO, Some MarkO, Some MarkO] = Some MarkX"
    by code_simp
  then show ?thesis
    using checkWinner_first_matched
            [of "[Some MarkO, Some MarkO, None, Some MarkX, Some MarkX, Some MarkX,
                  Some MarkO, Some MarkO, Some MarkO]" MarkX]
    by blast
qed

subsection \<open>Accepted move events\<close>

lemma arrayGet_update:
  "arrayGet xs i = Some v0 \<Longrightarrow>
     arrayGet (xs[nat i := v]) j = (if j = i then Some v else arrayGet xs j)"
  by (auto simp: arrayGet_def nth_list_update split: if_splits)

lemma hasLine_iff: "hasLine b \<longleftrightarrow> (\<exists>t\<in>set winningCombinations. matched b t)"
  by (simp add: hasLine_def list_ex_iff)

lemma checkWinner_None_hasLine: "checkWinner b = None \<longleftrightarrow> \<not> hasLine b"
  by (simp add: checkWinner_None_iff hasLine_iff)

lemma moveEvent_won:
  assumes "gameStatus s = Playing" "arrayGet (board s) index = Some None"
    and "checkWinner ((board s)[nat index := currentPlayer s]) = Some m"
  shows "moveEvent s index =
           s\<lparr> board := (board s)[nat index := currentPlayer s],
              currentPlayer := (if currentPlayer s = Some MarkX then Some MarkO else Some MarkX),
              gameStatus := Won,
              winner := Some m,
              score := (if m = MarkX then (score s)\<lparr>score_x := score_x (score s) + 1\<rparr>
                        else (score s)\<lparr>score_o := score_o (score s) + 1\<rparr>) \<rparr>"
  using assms by (simp add: moveEvent_def handleCellClick_def Let_def)

lemma moveEvent_no_winner:
  assumes "gameStatus s = Playing" "arrayGet (board s) index = Some None"
    and "checkWinner ((board s)[nat index := currentPlayer s]) = None"
  shows "moveEvent s index =
           s\<lparr> board := (board s)[nat index := currentPlayer s],
              currentPlayer := (if currentPlayer s = Some MarkX then Some MarkO else Some MarkX),
              gameStatus := (if isBoardFull ((board s)[nat index := currentPlayer s]) then Draw else Playing),
              winner := None,
              score := (if isBoardFull ((board s)[nat index := currentPlayer s])
                        then (score s)\<lparr>score_draws := score_draws (score s) + 1\<rparr>
                        else score s) \<rparr>"
  using assms by (simp add: moveEvent_def handleCellClick_def Let_def)

lemma moveEvent_board:
  assumes "gameStatus s = Playing" "arrayGet (board s) index = Some None"
  shows "board (moveEvent s index) = (board s)[nat index := currentPlayer s]"
    and "gameMode (moveEvent s index) = gameMode s"
    and "currentPlayer (moveEvent s index) =
           (if currentPlayer s = Some MarkX then Some MarkO else Some MarkX)"
    and "winner (moveEvent s index) = checkWinner ((board s)[nat index := currentPlayer s])"
  using assms by (simp_all add: moveEvent_def handleCellClick_def Let_def split: option.splits prod.splits)

lemma new_line_through_index:
  assumes empty: "arrayGet b index = Some None"
    and before: "\<not> matched b t"
    and after: "owns (b[nat index := p]) m t"
  shows "p = Some m"
proof -
  obtain a b' c where t: "t = (a, b', c)" by (cases t)
  have upd: "arrayGet (b[nat index := p]) j = (if j = index then Some p else arrayGet b j)" for j
    using empty by (rule arrayGet_update)
  show ?thesis
  proof (cases "index = a \<or> index = b' \<or> index = c")
    case True
    with after t upd show ?thesis by (auto simp: owns_def split: if_splits)
  next
    case False
    with after t upd have "owns b m t" by (simp add: owns_def)
    with before show ?thesis by (auto simp: matched_iff)
  qed
qed


text \<open>
  A move event handled by the handler of the render of the current state, as every click
  on a cell is: when the status is \<open>playing\<close> and the cell at the index is \<open>null\<close>, the
  move puts the current mark at that cell and changes no other cell. If the new board has
  a line, the status becomes \<open>won\<close>, the winner is a mark owning a line of the new board
  and only that mark's counter grows, by one. Otherwise, if the new board has no \<open>null\<close>
  cell, the status becomes \<open>draw\<close> and only the draw counter grows, by one. Otherwise the
  status stays \<open>playing\<close> and the score is as before. When the board had no line before
  the move, the winner is the mark that was placed.
\<close>

lemma moveEvent_accepted:
  assumes playing: "gameStatus s = Playing"
    and empty: "arrayGet (board s) index = Some None"
    and s': "s' = moveEvent s index"
  shows "board s' = (board s)[nat index := currentPlayer s]
     \<and> arrayGet (board s') index = Some (currentPlayer s)
     \<and> (\<forall>j. j \<noteq> index \<longrightarrow> arrayGet (board s') j = arrayGet (board s) j)
     \<and> (hasLine (board s') \<longrightarrow>
          gameStatus s' = Won
          \<and> (\<exists>m. winner s' = Some m
                 \<and> (\<exists>t\<in>set winningCombinations. owns (board s') m t)
                 \<and> score s' = (if m = MarkX then (score s)\<lparr>score_x := score_x (score s) + 1\<rparr>
                                else (score s)\<lparr>score_o := score_o (score s) + 1\<rparr>)))
     \<and> (\<not> hasLine (board s') \<and> None \<notin> set (board s') \<longrightarrow>
          gameStatus s' = Draw \<and> winner s' = None
          \<and> score s' = (score s)\<lparr>score_draws := score_draws (score s) + 1\<rparr>)
     \<and> (\<not> hasLine (board s') \<and> None \<in> set (board s') \<longrightarrow>
          gameStatus s' = Playing \<and> winner s' = None \<and> score s' = score s)
     \<and> (\<not> hasLine (board s) \<and> hasLine (board s') \<longrightarrow> winner s' = currentPlayer s)
     \<and> gameMode s' = gameMode s"
proof -
  let ?nb = "(board s)[nat index := currentPlayer s]"
  have nb: "board s' = ?nb" and mode: "gameMode s' = gameMode s"
    and win: "winner s' = checkWinner ?nb"
    using moveEvent_board [OF playing empty] s' by simp_all
  have upd: "arrayGet ?nb j = (if j = index then Some (currentPlayer s) else arrayGet (board s) j)"
    for j using empty by (rule arrayGet_update)
  have won: "gameStatus s' = Won
       \<and> (\<exists>m. winner s' = Some m
              \<and> (\<exists>t\<in>set winningCombinations. owns ?nb m t)
              \<and> score s' = (if m = MarkX then (score s)\<lparr>score_x := score_x (score s) + 1\<rparr>
                             else (score s)\<lparr>score_o := score_o (score s) + 1\<rparr>))"
    if "hasLine ?nb"
  proof -
    from that obtain m where m: "checkWinner ?nb = Some m"
      using checkWinner_None_hasLine [of ?nb] by (cases "checkWinner ?nb") auto
    have "\<exists>t\<in>set winningCombinations. owns ?nb m t"
      using m by (rule checkWinner_Some_owns)
    then show ?thesis
      using moveEvent_won [OF playing empty m] s' by simp
  qed
  have nowin: "gameStatus s' = (if isBoardFull ?nb then Draw else Playing) \<and> winner s' = None
       \<and> score s' = (if isBoardFull ?nb
                       then (score s)\<lparr>score_draws := score_draws (score s) + 1\<rparr> else score s)"
    if "\<not> hasLine ?nb"
  proof -
    from that have "checkWinner ?nb = None" by (simp add: checkWinner_None_hasLine)
    then show ?thesis
      using moveEvent_no_winner [OF playing empty] s' by simp
  qed
  have current: "winner s' = currentPlayer s" if before: "\<not> hasLine (board s)" and after: "hasLine ?nb"
  proof -
    from after obtain m where m: "checkWinner ?nb = Some m"
      using checkWinner_None_hasLine [of ?nb] by (cases "checkWinner ?nb") auto
    then obtain t where t: "t \<in> set winningCombinations" "owns ?nb m t"
      using checkWinner_Some_owns by blast
    from before t(1) have "\<not> matched (board s) t" by (auto simp: hasLine_iff)
    then have "currentPlayer s = Some m" using new_line_through_index [OF empty _ t(2)] by simp
    with m win show ?thesis by simp
  qed
  show ?thesis
    using nb mode upd won nowin current by (simp add: isBoardFull_set)
qed


text \<open>
  X plays 0, 1, 2 and O plays 3, 4 in between: the move at 2 wins for X and the score
  of X is 1.
\<close>

lemma moveEvent_accepted_witness:
  "gameStatus (clicks initialState [0, 3, 1, 4]) = Playing
   \<and> arrayGet (board (clicks initialState [0, 3, 1, 4])) 2 = Some None
   \<and> gameStatus (moveEvent (clicks initialState [0, 3, 1, 4]) 2) = Won
   \<and> winner (moveEvent (clicks initialState [0, 3, 1, 4]) 2) = Some MarkX
   \<and> score_x (score (moveEvent (clicks initialState [0, 3, 1, 4]) 2)) = 1"
proof -
  let ?s = "clicks initialState [0, 3, 1, 4]"
  let ?s' = "moveEvent ?s 2"
  have playing: "gameStatus ?s = Playing" by code_simp
  have empty: "arrayGet (board ?s) 2 = Some None" by code_simp
  have before: "\<not> hasLine (board ?s)" by code_simp
  have after: "hasLine (board ?s')" by code_simp
  have cur: "currentPlayer ?s = Some MarkX" by code_simp
  have sc: "score_x (score ?s) = 0" by code_simp
  note fact = moveEvent_accepted [OF playing empty refl]
  from fact after have won: "gameStatus ?s' = Won"
    by blast
  from fact before after have "winner ?s' = currentPlayer ?s"
    by blast
  with cur have win: "winner ?s' = Some MarkX"
    by (simp only:)
  from fact after obtain m where m: "winner ?s' = Some m"
    "score ?s' = (if m = MarkX then (score ?s)\<lparr>score_x := score_x (score ?s) + 1\<rparr>
                  else (score ?s)\<lparr>score_o := score_o (score ?s) + 1\<rparr>)"
    by blast
  from m(1) win have "m = MarkX" by (simp only: option.inject)
  with m(2) have "score_x (score ?s') = score_x (score ?s) + 1"
    by (simp del: clicks.simps)
  with sc have "score_x (score ?s') = 1"
    by (simp only: add_0)
  with playing empty won win show ?thesis
    by (simp only: simp_thms)
qed

subsection \<open>A move of the computer after the score was reset\<close>

text \<open>
  Claim C1 says that an accepted move that neither wins nor fills the board leaves the
  three counters as they are. A move of the computer breaks it when the score is reset
  while its timer is set. In the state \<open>afterCentre\<close> the condition of the effect holds, so
  the render of that state sets the timer, and the score is x = 1. \<open>resetScore\<close> zeroes
  the score and changes none of the three dependencies of the effect, so the timer stays
  set and its callback is still that of \<open>afterCentre\<close>. When it fires with
  \<open>Math.random()\<close> = 0 it plays the corner 0, an accepted move of O on the current state
  after which the board has no line and the status is \<open>playing\<close>; the score is x = 1
  again, since \<open>handleCellClick\<close> copies the score of its own render and not that of
  \<open>prev\<close>.
\<close>

theorem stale_timer_overwrites_score:
  "computerEffectCondition afterCentre
   \<and> score afterCentre = \<lparr> score_x = 1, score_o = 0, score_draws = 0 \<rparr>
   \<and> computerEffectDeps (resetScore afterCentre) = computerEffectDeps afterCentre
   \<and> score (resetScore afterCentre) = \<lparr> score_x = 0, score_o = 0, score_draws = 0 \<rparr>
   \<and> getComputerMove 0 (board afterCentre) = Some 0
   \<and> accepted (resetScore afterCentre) 0
   \<and> board (computerTimer 0 afterCentre (resetScore afterCentre))
       = (board (resetScore afterCentre))[0 := Some MarkO]
   \<and> \<not> hasLine (board (computerTimer 0 afterCentre (resetScore afterCentre)))
   \<and> gameStatus (computerTimer 0 afterCentre (resetScore afterCentre)) = Playing
   \<and> score (computerTimer 0 afterCentre (resetScore afterCentre))
       = \<lparr> score_x = 1, score_o = 0, score_draws = 0 \<rparr>"
  by code_simp

subsection \<open>Whose turn it is\<close>

text \<open>
  The move of X at 2 that completes the row (0, 1, 2) is accepted, the status after it is
  \<open>won\<close>, and the current player has changed from X to O.
\<close>

theorem accepted_move_flips_turn_when_won:
  "gameStatus (clicks initialState [0, 3, 1, 4]) = Playing
   \<and> arrayGet (board (clicks initialState [0, 3, 1, 4])) 2 = Some None
   \<and> gameStatus (moveEvent (clicks initialState [0, 3, 1, 4]) 2) = Won
   \<and> currentPlayer (clicks initialState [0, 3, 1, 4]) = Some MarkX
   \<and> currentPlayer (moveEvent (clicks initialState [0, 3, 1, 4]) 2) = Some MarkO"
  by code_simp



text \<open>
  Claim C6, as the code has it: every accepted move hands the turn to the other mark,
  X to O and O to X, whatever the status after the move.
\<close>

theorem accepted_move_flips_turn:
  assumes "gameStatus s = Playing" and "arrayGet (board s) index = Some None"
  shows "(currentPlayer s = Some MarkX \<longrightarrow> currentPlayer (moveEvent s index) = Some MarkO)
     \<and> (currentPlayer s = Some MarkO \<longrightarrow> currentPlayer (moveEvent s index) = Some MarkX)"
  using moveEvent_board(3) [OF assms] by simp

text \<open>A winning move and two moves after which the game goes on.\<close>

theorem accepted_move_flips_turn_witness:
  "gameStatus (moveEvent (clicks initialState [0, 3, 1, 4]) 2) = Won
   \<and> currentPlayer (moveEvent (clicks initialState [0, 3, 1, 4]) 2) = Some MarkO
   \<and> gameStatus (moveEvent initialState 4) = Playing
   \<and> currentPlayer (moveEvent initialState 4) = Some MarkO
   \<and> gameStatus (moveEvent (moveEvent initialState 4) 0) = Playing
   \<and> currentPlayer (moveEvent (moveEvent initialState 4) 0) = Some MarkX"
proof -
  let ?s = "clicks initialState [0, 3, 1, 4]"
  let ?t = "moveEvent initialState 4"
  have s1: "gameStatus ?s = Playing" by code_simp
  have s2: "arrayGet (board ?s) 2 = Some None" by code_simp
  have s3: "currentPlayer ?s = Some MarkX" by code_simp
  have s4: "gameStatus (moveEvent ?s 2) = Won" by code_simp
  have i1: "gameStatus initialState = Playing" by code_simp
  have i2: "arrayGet (board initialState) 4 = Some None" by code_simp
  have i3: "currentPlayer initialState = Some MarkX" by code_simp
  have t1: "gameStatus ?t = Playing" by code_simp
  have t2: "arrayGet (board ?t) 0 = Some None" by code_simp
  have t3: "currentPlayer ?t = Some MarkO" by code_simp
  have t4: "gameStatus (moveEvent ?t 0) = Playing" by code_simp
  show ?thesis
    using accepted_move_flips_turn [OF s1 s2] accepted_move_flips_turn [OF i1 i2]
          accepted_move_flips_turn [OF t1 t2] s3 s4 i3 t1 t3 t4
    by blast
qed

subsection \<open>The sequence 0, 1, 2, 4, 3, 5, 6, 8, 7\<close>

text \<open>
  After the first seven events X holds the column (0, 3, 6); the status at the end of the
  sequence is \<open>won\<close> and the draw counter is 0.
\<close>

theorem scenario_is_won_not_drawn:
  "checkWinner (board (clicks initialState [0, 1, 2, 4, 3, 5, 6])) = Some MarkX
   \<and> gameStatus (clicks initialState [0, 1, 2, 4, 3, 5, 6, 8, 7]) = Won
   \<and> score_draws (score (clicks initialState [0, 1, 2, 4, 3, 5, 6, 8, 7])) = 0"
  by code_simp

text \<open>
  Claim C9, as the code has it: in the sequence 0, 1, 2, 4, 3, 5, 6, 8, 7 from the initial
  state, no line exists after any of the first six moves and the status is still
  \<open>playing\<close>; the seventh move puts the fourth X at cell 6 and completes the column
  (0, 3, 6), so the status becomes \<open>won\<close> with winner X and the score is x = 1, o = 0,
  draws = 0; the last two events are ignored and leave that state as it is.
\<close>

theorem scenario_outcome:
  "\<not> hasLine (board (clicks initialState [0]))
   \<and> \<not> hasLine (board (clicks initialState [0, 1]))
   \<and> \<not> hasLine (board (clicks initialState [0, 1, 2]))
   \<and> \<not> hasLine (board (clicks initialState [0, 1, 2, 4]))
   \<and> \<not> hasLine (board (clicks initialState [0, 1, 2, 4, 3]))
   \<and> \<not> hasLine (board (clicks initialState [0, 1, 2, 4, 3, 5]))
   \<and> gameStatus (clicks initialState [0, 1, 2, 4, 3, 5]) = Playing
   \<and> placedMarks initialState [0, 1, 2, 4, 3, 5, 6, 8, 7]
       = [Some MarkX, Some MarkO, Some MarkX, Some MarkO, Some MarkX, Some MarkO, Some MarkX]
   \<and> owns (board (clicks initialState [0, 1, 2, 4, 3, 5, 6])) MarkX (0, 3, 6)
   \<and> gameStatus (clicks initialState [0, 1, 2, 4, 3, 5, 6]) = Won
   \<and> winner (clicks initialState [0, 1, 2, 4, 3, 5, 6]) = Some MarkX
   \<and> score (clicks initialState [0, 1, 2, 4, 3, 5, 6])
       = \<lparr> score_x = 1, score_o = 0, score_draws = 0 \<rparr>
   \<and> clicks initialState [0, 1, 2, 4, 3, 5, 6, 8, 7] = clicks initialState [0, 1, 2, 4, 3, 5, 6]"
  by code_simp


subsection \<open>Alternation of the marks\<close>

lemma moveEvent_guard:
  "arrayGet (board s) i \<noteq> Some None \<or> gameStatus s \<noteq> Playing \<Longrightarrow> moveEvent s i = s"
  by (simp add: moveEvent_def handleCellClick_def)

lemma placed_is_current:
  assumes "accepted s i"
  shows "board (moveEvent s i) ! nat i = currentPlayer s"
proof -
  from assms have acc: "gameStatus s = Playing" "arrayGet (board s) i = Some None"
    by (simp_all add: accepted_def)
  have "arrayGet (board (moveEvent s i)) i = Some (currentPlayer s)"
    using moveEvent_board(1) [OF acc] arrayGet_update [OF acc(2), of "currentPlayer s" i]
    by simp
  then show ?thesis by (simp add: arrayGet_Some_iff)
qed

lemma placedMarks_alternate:
  "currentPlayer s = Some m \<Longrightarrow> placedMarks s is = alternate m (length (placedMarks s is))"
proof (induction "is" arbitrary: s m)
  case Nil
  show ?case by simp
next
  case (Cons i "is")
  show ?case
  proof (cases "accepted s i")
    case False
    then have "moveEvent s i = s"
      using moveEvent_guard [of s i] by (auto simp: accepted_def)
    with False Cons show ?thesis by simp
  next
    case True
    then have acc: "gameStatus s = Playing" "arrayGet (board s) i = Some None"
      by (simp_all add: accepted_def)
    let ?m' = "if m = MarkX then MarkO else MarkX"
    have "currentPlayer (moveEvent s i) = Some ?m'"
      using moveEvent_board(3) [OF acc] Cons.prems by (cases m) simp_all
    then have "placedMarks (moveEvent s i) is
               = alternate ?m' (length (placedMarks (moveEvent s i) is))"
      by (rule Cons.IH)
    moreover have "board (moveEvent s i) ! nat i = Some m"
      using placed_is_current [OF True] Cons.prems by simp
    ultimately show ?thesis using True by simp
  qed
qed

text \<open>
  Claim C7: whatever the sequence of move events, the marks placed by its accepted events
  alternate X, O, X, O, ... when the sequence starts in the initial state; from any state
  they alternate starting with the mark whose turn it is.
\<close>

theorem marks_alternate_from_X:
  "placedMarks initialState is = alternate MarkX (length (placedMarks initialState is))
   \<and> (currentPlayer s = Some m \<longrightarrow> placedMarks s is = alternate m (length (placedMarks s is)))"
proof -
  have "currentPlayer initialState = Some MarkX" by (simp add: initialState_def)
  then show ?thesis using placedMarks_alternate by blast
qed

text \<open>
  Nine events of which six are accepted, from the initial state; and three events of
  which two are accepted, from a state where it is the turn of O.
\<close>

theorem marks_alternate_from_X_witness:
  "placedMarks initialState [4, 4, 0, 9, 8, 4, 2, 6, 3]
     = [Some MarkX, Some MarkO, Some MarkX, Some MarkO, Some MarkX, Some MarkO]
   \<and> placedMarks (clicks initialState [4]) [0, 0, 8]
     = [Some MarkO, Some MarkX]"
proof -
  have n1: "length (placedMarks initialState [4, 4, 0, 9, 8, 4, 2, 6, 3]) = 6" by code_simp
  have n2: "length (placedMarks (clicks initialState [4]) [0, 0, 8]) = 2" by code_simp
  have cur: "currentPlayer (clicks initialState [4]) = Some MarkO" by code_simp
  have a1: "alternate MarkX 6 = [Some MarkX, Some MarkO, Some MarkX, Some MarkO, Some MarkX, Some MarkO]"
    by code_simp
  have a2: "alternate MarkO 2 = [Some MarkO, Some MarkX]" by code_simp
  from marks_alternate_from_X [of "[4, 4, 0, 9, 8, 4, 2, 6, 3]" "clicks initialState [4]" MarkO]
  have "placedMarks initialState [4, 4, 0, 9, 8, 4, 2, 6, 3] = alternate MarkX 6"
    unfolding n1 by blast
  moreover
  from marks_alternate_from_X [of "[0, 0, 8]" "clicks initialState [4]" MarkO] cur
  have "placedMarks (clicks initialState [4]) [0, 0, 8] = alternate MarkO 2"
    unfolding n2 by blast
  ultimately show ?thesis unfolding a1 a2 by blast
qed

subsection \<open>The computer wins or blocks\<close>

lemma openPair_iff:
  "openPair m b (a, b', c) \<longleftrightarrow>
     (arrayGet b a = Some (Some m) \<and> arrayGet b b' = Some (Some m) \<and> arrayGet b c = Some None)
     \<or> (arrayGet b a = Some (Some m) \<and> arrayGet b c = Some (Some m) \<and> arrayGet b b' = Some None)
     \<or> (arrayGet b b' = Some (Some m) \<and> arrayGet b c = Some (Some m) \<and> arrayGet b a = Some None)"
  unfolding openPair_def completes_def prod.case by simp argo

lemma completes_third:
  "arrayGet b a = Some (Some m) \<Longrightarrow> arrayGet b b' = Some (Some m) \<Longrightarrow> arrayGet b c = Some None
     \<Longrightarrow> completes m b (a, b', c) c"
  unfolding completes_def prod.case by simp

lemma completes_second:
  "arrayGet b a = Some (Some m) \<Longrightarrow> arrayGet b c = Some (Some m) \<Longrightarrow> arrayGet b b' = Some None
     \<Longrightarrow> completes m b (a, b', c) b'"
  unfolding completes_def prod.case by simp

lemma completes_first:
  "arrayGet b b' = Some (Some m) \<Longrightarrow> arrayGet b c = Some (Some m) \<Longrightarrow> arrayGet b a = Some None
     \<Longrightarrow> completes m b (a, b', c) a"
  unfolding completes_def prod.case by simp

lemma pairLoop_None:
  "pairLoop m b cs = None \<longleftrightarrow> (\<forall>t\<in>set cs. \<not> openPair m b t)"
proof (induction cs)
  case Nil
  show ?case by simp
next
  case (Cons t rest)
  obtain a b' c where t: "t = (a, b', c)" by (cases t)
  show ?case
    unfolding t using Cons by (simp add: openPair_iff)
qed

lemma pairLoop_Some:
  "pairLoop m b cs = Some i \<Longrightarrow> \<exists>t\<in>set cs. completes m b t i"
proof (induction cs)
  case Nil
  then show ?case by simp
next
  case (Cons t rest)
  obtain a b' c where t: "t = (a, b', c)" by (cases t)
  let ?w3 = "arrayGet b a = Some (Some m) \<and> arrayGet b b' = Some (Some m) \<and> arrayGet b c = Some None"
  let ?w2 = "arrayGet b a = Some (Some m) \<and> arrayGet b c = Some (Some m) \<and> arrayGet b b' = Some None"
  let ?w1 = "arrayGet b b' = Some (Some m) \<and> arrayGet b c = Some (Some m) \<and> arrayGet b a = Some None"
  consider (third) ?w3 | (second) "\<not> ?w3" ?w2 | (first) "\<not> ?w3" "\<not> ?w2" ?w1
    | (none) "\<not> ?w3" "\<not> ?w2" "\<not> ?w1"
    by blast
  then show ?case
  proof cases
    case third
    with Cons.prems t have "i = c" by simp
    with third t have "completes m b t i" by (simp add: completes_third)
    then show ?thesis by simp
  next
    case second
    with Cons.prems t have "i = b'" by simp
    with second t have "completes m b t i" by (simp add: completes_second)
    then show ?thesis by simp
  next
    case first
    with Cons.prems t have "i = a" by simp
    with first t have "completes m b t i" by (simp add: completes_first)
    then show ?thesis by simp
  next
    case none
    with Cons.prems t have "pairLoop m b rest = Some i" by simp
    with Cons.IH show ?thesis by simp
  qed
qed

lemma completes_empty: "completes m b t i \<Longrightarrow> arrayGet b i = Some None"
  unfolding completes_def by (cases t) auto

lemma completing_iff: "completing m b i \<longleftrightarrow> (\<exists>t\<in>set winningCombinations. completes m b t i)"
  by (simp add: completing_def list_ex_iff)

lemma winTier_result:
  "pairLoop MarkO b winningCombinations = Some i \<Longrightarrow> getComputerMove rnd b = Some i"
  by (simp add: getComputerMove_def)

lemma blockTier_result:
  "pairLoop MarkO b winningCombinations = None \<Longrightarrow>
   pairLoop MarkX b winningCombinations = Some i \<Longrightarrow> getComputerMove rnd b = Some i"
  by (simp add: getComputerMove_def)


text \<open>
  Claim C4: when O has an open pair, \<open>getComputerMove\<close> returns an index that completes
  one of O's triples; when O has none and X has an open pair, it returns an index that
  completes one of X's triples, which blocks it. The first loop returns an index only
  when that index completes a triple of O, and returns nothing when O has no open pair,
  whatever pairs X holds.
\<close>

theorem getComputerMove_wins_or_blocks:
  "(list_ex (openPair MarkO b) winningCombinations \<longrightarrow>
      (\<exists>i. getComputerMove rnd b = Some i \<and> completing MarkO b i))
   \<and> (\<not> list_ex (openPair MarkO b) winningCombinations
        \<and> list_ex (openPair MarkX b) winningCombinations \<longrightarrow>
      (\<exists>i. getComputerMove rnd b = Some i \<and> completing MarkX b i))
   \<and> (pairLoop MarkO b winningCombinations = None
        \<longleftrightarrow> \<not> list_ex (openPair MarkO b) winningCombinations)
   \<and> (\<forall>i. pairLoop MarkO b winningCombinations = Some i \<longrightarrow> completing MarkO b i)"
proof -
  have tier: "pairLoop m b winningCombinations = None
              \<longleftrightarrow> \<not> list_ex (openPair m b) winningCombinations" for m
    by (simp add: pairLoop_None list_ex_iff)
  have found: "completing m b i" if "pairLoop m b winningCombinations = Some i" for m i
    using pairLoop_Some [OF that] by (simp add: completing_iff)
  have win: "\<exists>i. getComputerMove rnd b = Some i \<and> completing MarkO b i"
    if "list_ex (openPair MarkO b) winningCombinations"
  proof -
    from that tier [of MarkO] obtain i where i: "pairLoop MarkO b winningCombinations = Some i"
      by (cases "pairLoop MarkO b winningCombinations") simp_all
    then have "getComputerMove rnd b = Some i" by (rule winTier_result)
    with found [OF i] show ?thesis by blast
  qed
  have block: "\<exists>i. getComputerMove rnd b = Some i \<and> completing MarkX b i"
    if "\<not> list_ex (openPair MarkO b) winningCombinations"
      and "list_ex (openPair MarkX b) winningCombinations"
  proof -
    from that(1) tier [of MarkO] have none: "pairLoop MarkO b winningCombinations = None" by simp
    from that(2) tier [of MarkX] obtain i where i: "pairLoop MarkX b winningCombinations = Some i"
      by (cases "pairLoop MarkX b winningCombinations") simp_all
    from none i have "getComputerMove rnd b = Some i" by (rule blockTier_result)
    with found [OF i] show ?thesis by blast
  qed
  show ?thesis using tier [of MarkO] found [of MarkO] win block by blast
qed

text \<open>
  X at 0 and 1 with every other cell \<open>null\<close>: the first loop finds nothing and the move
  is 2, which blocks. With O at 3 and 4 as well, the move completes a triple of O.
\<close>

theorem getComputerMove_wins_or_blocks_witness:
  "getComputerMove (1 / 2) [Some MarkX, Some MarkX, None, None, None, None, None, None, None] = Some 2
   \<and> pairLoop MarkO [Some MarkX, Some MarkX, None, None, None, None, None, None, None]
        winningCombinations = None
   \<and> completing MarkX [Some MarkX, Some MarkX, None, None, None, None, None, None, None] 2
   \<and> (\<exists>i. getComputerMove (1 / 2)
              [Some MarkX, Some MarkX, None, Some MarkO, Some MarkO, None, None, None, None] = Some i
          \<and> completing MarkO
              [Some MarkX, Some MarkX, None, Some MarkO, Some MarkO, None, None, None, None] i)"
proof -
  let ?b = "[Some MarkX, Some MarkX, None, None, None, None, None, None, None]"
  let ?c = "[Some MarkX, Some MarkX, None, Some MarkO, Some MarkO, None, None, None, None]"
  have noO: "\<not> list_ex (openPair MarkO ?b) winningCombinations" by code_simp
  have hasX: "list_ex (openPair MarkX ?b) winningCombinations" by code_simp
  have hasO: "list_ex (openPair MarkO ?c) winningCombinations" by code_simp
  have move: "getComputerMove (1 / 2) ?b = Some 2" by code_simp
  note b = getComputerMove_wins_or_blocks [of ?b "1 / 2"]
  note c = getComputerMove_wins_or_blocks [of ?c "1 / 2"]
  from b noO hasX obtain i where "getComputerMove (1 / 2) ?b = Some i" "completing MarkX ?b i"
    by blast
  with move have "completing MarkX ?b 2" by (simp only: option.inject)
  moreover from b noO have "pairLoop MarkO ?b winningCombinations = None" by blast
  moreover from c hasO have "\<exists>i. getComputerMove (1 / 2) ?c = Some i \<and> completing MarkO ?c i"
    by blast
  ultimately show ?thesis using move by blast
qed

subsection \<open>The computer moves to an empty cell\<close>

lemma floor_random_index:
  assumes "0 \<le> r" "r < 1" "0 < n"
  shows "0 \<le> \<lfloor>r * real n\<rfloor> \<and> \<lfloor>r * real n\<rfloor> < int n"
proof -
  have "0 \<le> r * real n" using assms by simp
  then have lo: "0 \<le> \<lfloor>r * real n\<rfloor>" by simp
  have "r * real n < 1 * real n" using assms by (intro mult_strict_right_mono) simp_all
  then have "r * real n < real_of_int (int n)" by simp
  then have "\<lfloor>r * real n\<rfloor> < int n" by (simp only: floor_less_iff)
  with lo show ?thesis by simp
qed

lemma arrayGet_member:
  assumes "0 \<le> k" "k < int (length xs)"
  shows "\<exists>v. arrayGet xs k = Some v \<and> v \<in> set xs"
  using assms by (simp add: arrayGet_def)

lemma random_pick:
  assumes "0 \<le> r" "r < 1" "xs \<noteq> []"
  shows "\<exists>v. arrayGet xs \<lfloor>r * real (length xs)\<rfloor> = Some v \<and> v \<in> set xs"
proof -
  from assms(3) have "0 < length xs" by simp
  from floor_random_index [OF assms(1,2) this] show ?thesis
    by (intro arrayGet_member) simp_all
qed

lemma tier3:
  assumes "pairLoop MarkO b winningCombinations = None" "pairLoop MarkX b winningCombinations = None"
    "arrayGet b 4 = Some None"
  shows "getComputerMove rnd b = Some 4"
  using assms by (simp add: getComputerMove_def)

lemma tier4:
  assumes "pairLoop MarkO b winningCombinations = None" "pairLoop MarkX b winningCombinations = None"
    "arrayGet b 4 \<noteq> Some None" "filter (\<lambda>corner. arrayGet b corner = Some None) [0, 2, 6, 8] \<noteq> []"
  shows "getComputerMove rnd b = arrayGet (filter (\<lambda>corner. arrayGet b corner = Some None) [0, 2, 6, 8])
     \<lfloor>rnd * real (length (filter (\<lambda>corner. arrayGet b corner = Some None) [0, 2, 6, 8]))\<rfloor>"
  using assms by (simp add: getComputerMove_def Let_def del: filter.simps)

lemma getAvailableMoves_nonempty:
  assumes "None \<in> set b"
  shows "getAvailableMoves b \<noteq> []"
proof -
  from assms obtain i where "arrayGet b i = Some None"
    unfolding None_in_board_iff by blast
  then have "i \<in> set (getAvailableMoves b)" by (simp add: set_getAvailableMoves)
  then show ?thesis by (cases "getAvailableMoves b") simp_all
qed

lemma pairLoop_empty_cell:
  assumes "pairLoop m b cs = Some i"
  shows "arrayGet b i = Some None"
proof -
  from pairLoop_Some [OF assms] obtain t where "completes m b t i" by blast
  then show ?thesis by (rule completes_empty)
qed

lemma tier5:
  assumes "pairLoop MarkO b winningCombinations = None" "pairLoop MarkX b winningCombinations = None"
    "arrayGet b 4 \<noteq> Some None" "filter (\<lambda>corner. arrayGet b corner = Some None) [0, 2, 6, 8] = []"
  shows "getComputerMove rnd b =
           arrayGet (getAvailableMoves b) \<lfloor>rnd * real (length (getAvailableMoves b))\<rfloor>"
  using assms by (simp add: getComputerMove_def Let_def del: filter.simps)

lemma getComputerMove_empty_cell:
  assumes some: "None \<in> set b" and rnd: "0 \<le> rnd" "rnd < 1"
  shows "\<exists>i. getComputerMove rnd b = Some i \<and> arrayGet b i = Some None"
proof (cases "pairLoop MarkO b winningCombinations")
  case (Some i)
  then have "getComputerMove rnd b = Some i" by (rule winTier_result)
  moreover from Some have "arrayGet b i = Some None" by (rule pairLoop_empty_cell)
  ultimately show ?thesis by blast
next
  case noO: None
  show ?thesis
  proof (cases "pairLoop MarkX b winningCombinations")
    case (Some i)
    with noO have "getComputerMove rnd b = Some i" by (rule blockTier_result)
    moreover from Some have "arrayGet b i = Some None" by (rule pairLoop_empty_cell)
    ultimately show ?thesis by blast
  next
    case noX: None
    show ?thesis
    proof (cases "arrayGet b 4 = Some None")
      case True
      with noO noX have "getComputerMove rnd b = Some 4" by (rule tier3)
      with True show ?thesis by blast
    next
      case centre: False
      let ?corners = "filter (\<lambda>corner. arrayGet b corner = Some None) [0, 2, 6, 8]"
      show ?thesis
      proof (cases "?corners = []")
        case False
        from random_pick [OF rnd False] obtain v where
          v: "arrayGet ?corners \<lfloor>rnd * real (length ?corners)\<rfloor> = Some v" "v \<in> set ?corners"
          by blast
        from v(2) have "arrayGet b v = Some None"
          by (simp only: set_filter mem_Collect_eq)
        moreover have "getComputerMove rnd b = Some v"
          using tier4 [OF noO noX centre False] v(1) by (simp only:)
        ultimately show ?thesis by blast
      next
        case True
        let ?moves = "getAvailableMoves b"
        from some have "?moves \<noteq> []" by (rule getAvailableMoves_nonempty)
        from random_pick [OF rnd this] obtain v where
          v: "arrayGet ?moves \<lfloor>rnd * real (length ?moves)\<rfloor> = Some v" "v \<in> set ?moves"
          by blast
        from v(2) have "arrayGet b v = Some None" by (simp add: set_getAvailableMoves)
        moreover have "getComputerMove rnd b = Some v"
          using tier5 [OF noO noX centre True] v(1) by (simp only:)
        ultimately show ?thesis by blast
      qed
    qed
  qed
qed

text \<open>
  Claim C5: on a board with at least one \<open>null\<close> cell, for every value \<open>0 \<le> rnd < 1\<close> of
  \<open>Math.random()\<close>, \<open>getComputerMove\<close> returns an index of the board whose cell is
  \<open>null\<close>; on a board of nine cells the index is in 0..8.
\<close>

theorem getComputerMove_in_range_and_empty:
  assumes "None \<in> set b" and "0 \<le> rnd" and "rnd < 1"
  shows "\<exists>i. getComputerMove rnd b = Some i \<and> arrayGet b i = Some None
             \<and> 0 \<le> i \<and> i < int (length b) \<and> (length b = 9 \<longrightarrow> i \<in> {0..8})"
proof -
  from getComputerMove_empty_cell [OF assms] obtain i where
    i: "getComputerMove rnd b = Some i" "arrayGet b i = Some None" by blast
  from i(2) have "0 \<le> i" "i < int (length b)" by (simp_all add: arrayGet_Some_iff)
  with i show ?thesis by auto
qed


text \<open>
  A board whose centre and corners are taken and that has no open pair, where the move
  is drawn from the empty cells 3 and 5; and a board with only the centre taken, where it
  is drawn from the four corners.
\<close>

theorem getComputerMove_in_range_and_empty_witness:
  "getComputerMove (1 / 2)
     [Some MarkX, Some MarkO, Some MarkX, None, Some MarkX, None, Some MarkO, Some MarkX, Some MarkO]
     = Some 5
   \<and> arrayGet
     [Some MarkX, Some MarkO, Some MarkX, None, Some MarkX, None, Some MarkO, Some MarkX, Some MarkO] 5
     = Some None
   \<and> getComputerMove (3 / 4) [None, None, None, None, Some MarkX, None, None, None, None] = Some 8
   \<and> arrayGet [None, None, None, None, Some MarkX, None, None, None, None] 8 = Some None"
proof -
  let ?b = "[Some MarkX, Some MarkO, Some MarkX, None, Some MarkX, None, Some MarkO, Some MarkX,
             Some MarkO]"
  let ?c = "[None, None, None, None, Some MarkX, None, None, None, None]"
  have eb: "None \<in> set ?b" and ec: "None \<in> set ?c" by simp_all
  have lo: "(0::real) \<le> 1 / 2" "(0::real) \<le> 3 / 4" and hi: "(1::real) / 2 < 1" "(3::real) / 4 < 1"
    by simp_all
  have mb: "getComputerMove (1 / 2) ?b = Some 5" by code_simp
  have mc: "getComputerMove (3 / 4) ?c = Some 8" by code_simp
  from getComputerMove_in_range_and_empty [OF eb lo(1) hi(1)] obtain i where
    "getComputerMove (1 / 2) ?b = Some i" "arrayGet ?b i = Some None" by blast
  with mb have b5: "arrayGet ?b 5 = Some None" by (simp only: option.inject)
  from getComputerMove_in_range_and_empty [OF ec lo(2) hi(2)] obtain j where
    "getComputerMove (3 / 4) ?c = Some j" "arrayGet ?c j = Some None" by blast
  with mc have c8: "arrayGet ?c 8 = Some None" by (simp only: option.inject)
  from mb b5 mc c8 show ?thesis by (simp only: simp_thms)
qed


end
